theory Spec2Isabelle
  imports Main "HOL-Library.Word" "HOL-Library.Signed_Division"
begin

unbundle bit_operations_syntax

section \<open>IGS036 decryption: the embedding of igs036crypt.cpp\<close>

text \<open>
  The C++ type \<open>int\<close> is a 32-bit two's complement integer, \<open>uint16_t\<close> a 16-bit
  unsigned one. An \<open>uint16_t\<close> operand of an arithmetic or bitwise operator is promoted
  to \<open>int\<close> first (\<open>ucast\<close>), and an \<open>int\<close> returned or stored as \<open>uint16_t\<close> keeps
  its low 16 bits (\<open>ucast\<close> again). \<open>>>\<close> on \<open>int\<close> is the arithmetic shift.
\<close>

type_synonym s32 = "32 word"
type_synonym u16 = "16 word"
type_synonym u8 = "8 word"

subsection \<open>The macros of emu.h\<close>

text \<open>
  Modelled from the spec: the macros \<open>BIT\<close> and \<open>BITSWAP16\<close> come from emu.h, which is
  not among the sources. \<open>BIT(x,n)\<close> is bit \<open>n\<close> of \<open>x\<close> as 0 or 1, that is
  \<open>(x >> n) & 1\<close>; \<open>BITSWAP16(val, B15, ..., B0)\<close> builds the word whose bit 15 is bit
  \<open>B15\<close> of \<open>val\<close>, whose bit 14 is bit \<open>B14\<close> of \<open>val\<close>, and so on down to bit 0, which
  is bit \<open>B0\<close> of \<open>val\<close> (the spec: "output bit positions [15..0] are sourced from input
  bit positions [10,9,8,7,0,15,6,5,14,13,4,3,12,11,2,1] respectively").
\<close>

definition BIT :: "s32 \<Rightarrow> nat \<Rightarrow> s32" where
  "BIT x n = signed_drop_bit n x AND 1"

definition BITSWAP16 ::
  "s32 \<Rightarrow> nat \<Rightarrow> nat \<Rightarrow> nat \<Rightarrow> nat \<Rightarrow> nat \<Rightarrow> nat \<Rightarrow> nat \<Rightarrow> nat \<Rightarrow>
          nat \<Rightarrow> nat \<Rightarrow> nat \<Rightarrow> nat \<Rightarrow> nat \<Rightarrow> nat \<Rightarrow> nat \<Rightarrow> nat \<Rightarrow> s32" where
  "BITSWAP16 val B15 B14 B13 B12 B11 B10 B9 B8 B7 B6 B5 B4 B3 B2 B1 B0 =
     (push_bit 15 (BIT val B15) OR push_bit 14 (BIT val B14) OR
      push_bit 13 (BIT val B13) OR push_bit 12 (BIT val B12) OR
      push_bit 11 (BIT val B11) OR push_bit 10 (BIT val B10) OR
      push_bit 9 (BIT val B9) OR push_bit 8 (BIT val B8) OR
      push_bit 7 (BIT val B7) OR push_bit 6 (BIT val B6) OR
      push_bit 5 (BIT val B5) OR push_bit 4 (BIT val B4) OR
      push_bit 3 (BIT val B3) OR push_bit 2 (BIT val B2) OR
      push_bit 1 (BIT val B1) OR push_bit 0 (BIT val B0))"

subsection \<open>The boolean functions of the low address bits\<close>

definition unknown :: "s32 \<Rightarrow> s32" where "unknown address = 0"
definition cZero :: "s32 \<Rightarrow> s32" where "cZero address = 0"
definition cOne :: "s32 \<Rightarrow> s32" where "cOne address = 1"
definition bit_3 :: "s32 \<Rightarrow> s32" where "bit_3 address = BIT address 3"
definition bit_4 :: "s32 \<Rightarrow> s32" where "bit_4 address = BIT address 4"
definition bit_7 :: "s32 \<Rightarrow> s32" where "bit_7 address = BIT address 7"
definition not_3 :: "s32 \<Rightarrow> s32" where "not_3 address = BIT address 3 XOR 1"
definition not_4 :: "s32 \<Rightarrow> s32" where "not_4 address = BIT address 4 XOR 1"
definition not_7 :: "s32 \<Rightarrow> s32" where "not_7 address = BIT address 7 XOR 1"
definition xor_37 :: "s32 \<Rightarrow> s32" where
  "xor_37 address = BIT address 3 XOR BIT address 7"
definition xnor_37 :: "s32 \<Rightarrow> s32" where
  "xnor_37 address = BIT address 3 XOR BIT address 7 XOR 1"
definition xor_47 :: "s32 \<Rightarrow> s32" where
  "xor_47 address = BIT address 4 XOR BIT address 7"
definition xnor_47 :: "s32 \<Rightarrow> s32" where
  "xnor_47 address = BIT address 4 XOR BIT address 7 XOR 1"
definition nor_34 :: "s32 \<Rightarrow> s32" where
  "nor_34 address = (BIT address 3 OR BIT address 4) XOR 1"
definition impl_43 :: "s32 \<Rightarrow> s32" where
  "impl_43 address = (if BIT address 3 \<noteq> 0 \<or> (BIT address 4 XOR 1) \<noteq> 0 then 1 else 0)"

subsection \<open>The dispatch tables\<close>

definition rot_enabling :: "(s32 \<Rightarrow> s32) list list" where
  "rot_enabling = [
     [bit_3  , not_3  , bit_3  , not_3  ],
     [bit_3  , not_3  , bit_3  , not_3  ],
     [bit_4  , bit_4  , bit_4  , bit_4  ],
     [bit_4  , not_4  , bit_4  , not_4  ],
     [bit_3  , bit_3  , bit_3  , bit_3  ],
     [nor_34 , bit_7  , bit_7  , cZero  ],
     [cZero  , cOne   , cZero  , cOne   ],
     [impl_43, xor_37 , xnor_37, not_3  ],
     [bit_3  , bit_3  , not_3  , not_3  ],
     [bit_4  , bit_4  , not_4  , not_4  ],
     [cZero  , cZero  , cZero  , cZero  ],
     [nor_34 , bit_7  , not_7  , cOne   ],
     [bit_3  , not_3  , bit_3  , not_3  ],
     [cZero  , cOne   , cOne   , cZero  ],
     [unknown, unknown, unknown, unknown],
     [unknown, unknown, unknown, unknown]]"

definition rot_direction :: "(s32 \<Rightarrow> s32) list list" where
  "rot_direction = [
     [bit_3  , xor_37 , xnor_37, not_3  , bit_3  , xor_37 , xnor_37, not_3  ],
     [cZero  , not_7  , not_7  , cZero  , cZero  , not_7  , not_7  , cZero  ],
     [bit_4  , xor_47 , xnor_47, not_4  , bit_4  , xor_47 , xnor_47, not_4  ],
     [bit_3  , not_7  , bit_7  , cZero  , cOne   , not_7  , bit_7  , cZero  ]]"

text \<open>The triggers: under what condition each of the 16 XORs is activated.\<close>

definition triggers :: "u16 list list" where
  "triggers = [
     [0x0001, 0x0000], [0x0008, 0x0008], [0x0002, 0x0000], [0x0004, 0x0004],
     [0x0100, 0x0000], [0x0200, 0x0000], [0x0400, 0x0000], [0x0800, 0x0800],
     [0x1001, 0x0001], [0x2002, 0x2000], [0x4004, 0x4000], [0x8008, 0x0000],
     [0x0010, 0x0010], [0x0020, 0x0020], [0x0040, 0x0000], [0x0081, 0x0081]]"

subsection \<open>The rotation\<close>

text \<open>
  \<open>rot_enabled\<close>: the loop over the four positions of a group, left at the first
  position whose high address bit is set; \<open>enabled\<close> stays 0 when none is.
\<close>

fun rot_enabled :: "s32 \<Rightarrow> nat list \<Rightarrow> s32" where
  "rot_enabled address [] = 0"
| "rot_enabled address (g # grp) =
     (if BIT address (8 + g) \<noteq> 0
      then (let aux = address XOR (0x1b * BIT address 2)
            in (rot_enabling ! g ! unat (aux AND 3)) aux)
      else rot_enabled address grp)"

definition rot_group :: "s32 \<Rightarrow> nat list \<Rightarrow> s32" where
  "rot_group address grp =
     (let aux = (rot_direction ! (grp ! 0 AND 3) ! unat (address AND 7)) address
      in (aux * 2) - 1)"

definition group15 :: "nat list" where "group15 = [15, 11, 7, 5]"
definition group14 :: "nat list" where "group14 = [14, 9, 3, 2]"
definition group13 :: "nat list" where "group13 = [13, 10, 6, 1]"
definition group12 :: "nat list" where "group12 = [12, 8, 4, 0]"

text \<open>The local \<open>rot\<close> of \<open>rotation\<close>: the rotation depending on all the address bits.\<close>

definition rotation_rot :: "s32 \<Rightarrow> s32" where
  "rotation_rot address =
     (let enabled0 = rot_enabled address group15;
          rot = enabled0 * rot_group address group15 * 9;
          enabled1 = enabled0 XOR rot_enabled address group14;
          rot = rot + enabled1 * rot_group address group14 * 1;
          enabled2 = enabled0 XOR rot_enabled address group13;
          rot = rot + enabled2 * rot_group address group13 * 2;
          enabled3 = enabled0 XOR rot_enabled address group12;
          rot = rot + enabled3 * rot_group address group12 * 4
      in rot)"

text \<open>The local \<open>rot2\<close> of \<open>rotation\<close>: the block-independent rotation.\<close>

definition rotation_rot2 :: "s32 \<Rightarrow> s32" where
  "rotation_rot2 address =
     (let rot2 = 4 * BIT address 0;
          rot2 = rot2 + 1 * BIT address 4 * (BIT address 0 * 2 - 1);
          rot2 = rot2 + 4 * BIT address 3 * (BIT address 0 * 2 - 1);
          rot2 = rot2 * ((BIT address 7 OR (BIT address 0 XOR BIT address 1 XOR 1)) * 2 - 1);
          rot2 = rot2 + 2 * ((BIT address 0 XOR BIT address 1) AND (BIT address 7 XOR 1))
      in rot2)"

definition rotation :: "s32 \<Rightarrow> s32" where
  "rotation address = (rotation_rot address + rotation_rot2 address) AND 0xf"

subsection \<open>Rotation of a word, deobfuscation and decryption\<close>

text \<open>
  \<open>rol\<close>: \<open>num\<close> is promoted to \<open>int\<close> before each shift, so the shifts are shifts of a
  32-bit value, defined in C++ for the counts 0 to 31.
\<close>

definition rol :: "u16 \<Rightarrow> s32 \<Rightarrow> u16" where
  "rol num shift =
     (let r = (ucast (push_bit (unat shift) (ucast num :: s32)) :: u16);
          l = (ucast (signed_drop_bit (unat (16 - shift)) (ucast num :: s32)) :: u16)
      in r OR l)"

definition deobfuscate :: "u16 \<Rightarrow> s32 \<Rightarrow> u16" where
  "deobfuscate cipherword word_address =
     (let shift = rotation word_address;
          aux = (ucast (rol cipherword shift) :: s32);
          aux = BITSWAP16 aux 10 9 8 7 0 15 6 5 14 13 4 3 12 11 2 1
      in ucast aux)"

text \<open>One turn of the loop of \<open>decrypt\<close>, at bit position \<open>i\<close>.\<close>

definition decrypt_step :: "u16 list \<Rightarrow> s32 \<Rightarrow> nat \<Rightarrow> s32 \<Rightarrow> s32" where
  "decrypt_step key word_address i aux =
     (if BIT (ucast (key ! unat (word_address AND 0xff))) i \<noteq> 0
      then (if (signed_drop_bit 8 word_address AND ucast (triggers ! i ! 0))
                 = ucast (triggers ! i ! 1)
            then aux XOR push_bit i 1
            else aux)
      else aux)"

definition decrypt :: "u16 list \<Rightarrow> u16 \<Rightarrow> s32 \<Rightarrow> u16" where
  "decrypt key cipherword word_address =
     (let aux = (ucast (deobfuscate cipherword word_address) :: s32);
          aux = fold (decrypt_step key word_address) [0..<16] aux
      in ucast (aux XOR 0x1a3a))"

subsection \<open>The region transform\<close>

text \<open>
  Modelled from the spec: the type \<open>memory_region\<close> is declared in emu.h, which is not
  among the sources. A region is its bytes: \<open>bytes()\<close> is their number and \<open>base()\<close> points
  at the first. The cast of \<open>base()\<close> to \<open>uint16_t*\<close> reads and writes the word \<open>i\<close> at the
  bytes \<open>2i\<close> and \<open>2i+1\<close>, in the byte order of the host, which is a parameter here.
\<close>

datatype endianness = ENDIANNESS_LITTLE | ENDIANNESS_BIG

text \<open>The 16-bit word stored as the bytes \<open>b0\<close>, \<open>b1\<close>, and the two bytes a word is stored as.\<close>

definition bytes_word :: "endianness \<Rightarrow> u8 \<Rightarrow> u8 \<Rightarrow> u16" where
  "bytes_word e b0 b1 =
     (case e of
        ENDIANNESS_LITTLE \<Rightarrow> push_bit 8 (ucast b1) OR ucast b0
      | ENDIANNESS_BIG \<Rightarrow> push_bit 8 (ucast b0) OR ucast b1)"

definition word_bytes :: "endianness \<Rightarrow> u16 \<Rightarrow> u8 \<times> u8" where
  "word_bytes e w =
     (case e of
        ENDIANNESS_LITTLE \<Rightarrow> (ucast w, ucast (drop_bit 8 w))
      | ENDIANNESS_BIG \<Rightarrow> (ucast (drop_bit 8 w), ucast w))"

text \<open>\<open>rom[i]\<close> read and written.\<close>

definition rom_read :: "endianness \<Rightarrow> u8 list \<Rightarrow> nat \<Rightarrow> u16" where
  "rom_read e rom i = bytes_word e (rom ! (2 * i)) (rom ! (2 * i + 1))"

definition rom_write :: "endianness \<Rightarrow> u8 list \<Rightarrow> nat \<Rightarrow> u16 \<Rightarrow> u8 list" where
  "rom_write e rom i w =
     (case word_bytes e w of (b0, b1) \<Rightarrow> rom[2 * i := b0, 2 * i + 1 := b1])"

text \<open>
  \<open>size / 2\<close>, the bound of the loop, where \<open>int size = region->bytes()\<close>: the division of
  \<open>int\<close> truncates, and the loop does not run when the bound is not positive.
\<close>

definition word_count :: "u8 list \<Rightarrow> nat" where
  "word_count region = (let size = (of_nat (length region) :: s32) in nat (sint size sdiv 2))"

text \<open>One turn of the loop, \<open>rom[i] = decrypt(rom[i], i)\<close>, and the loop.\<close>

definition decrypter_rom_step :: "endianness \<Rightarrow> u16 list \<Rightarrow> nat \<Rightarrow> u8 list \<Rightarrow> u8 list" where
  "decrypter_rom_step e key i rom = rom_write e rom i (decrypt key (rom_read e rom i) (of_nat i))"

definition decrypter_rom :: "endianness \<Rightarrow> u16 list \<Rightarrow> u8 list \<Rightarrow> u8 list" where
  "decrypter_rom e key region =
     fold (decrypter_rom_step e key) [0..<word_count region] region"

section \<open>The statements of the specification\<close>

subsection \<open>The block contribution\<close>

text \<open>
  \<open>address_bit a n\<close> is bit \<open>n\<close> of the address as the integer 0 or 1, the
  \<open>b0, b1, b3, b4, b7\<close> of the specification.
\<close>

definition address_bit :: "s32 \<Rightarrow> nat \<Rightarrow> int" where
  "address_bit a n = (if bit a n then 1 else 0)"

text \<open>
  The block contribution as the specification writes it, over the mathematical integers:
  \<open>t = 4*b0; t += b4*(2*b0-1); t += 4*b3*(2*b0-1); t *= 2*(b7 OR (b0 XOR b1 XOR 1)) - 1;
  t += 2*((b0 XOR b1) AND (NOT b7))\<close>.
\<close>

definition rot2_spec :: "int \<Rightarrow> int \<Rightarrow> int \<Rightarrow> int \<Rightarrow> int \<Rightarrow> int" where
  "rot2_spec b0 b1 b3 b4 b7 =
     (let t = 4 * b0;
          t = t + b4 * (2 * b0 - 1);
          t = t + 4 * b3 * (2 * b0 - 1);
          t = t * (2 * (b7 OR (b0 XOR b1 XOR 1)) - 1);
          t = t + 2 * ((b0 XOR b1) AND (NOT b7))
      in t)"

subsection \<open>The key-dependent stage\<close>

text \<open>
  The key-dependent stage as the specification writes it: bit \<open>i\<close> is toggled when
  \<open>key[address & 0xFF]\<close> has bit \<open>i\<close> set and
  \<open>((address >> 8) & trigger_mask[i]) == trigger_match[i]\<close>.
\<close>

definition trigger_match :: "s32 \<Rightarrow> nat \<Rightarrow> bool" where
  "trigger_match a i \<longleftrightarrow>
     (drop_bit 8 a AND ucast (triggers ! i ! 0)) = (ucast (triggers ! i ! 1) :: s32)"

definition apply_key_xor :: "u16 list \<Rightarrow> u16 \<Rightarrow> s32 \<Rightarrow> u16" where
  "apply_key_xor key v a =
     fold (\<lambda>i v. if bit (key ! unat (a AND 0xFF)) i \<and> trigger_match a i
                  then v XOR push_bit i 1 else v) [0..<16] v"

text \<open>A key table for the examples: every XOR masked on, except at the entries 0 and 0x56.\<close>

definition sample_key :: "u16 list" where
  "sample_key = (replicate 256 0xFFFF)[0 := 0, 0x56 := 0]"

subsection \<open>The inverse of the deobfuscation\<close>

text \<open>
  The inverse of the deobfuscation as the specification describes it: the inverse of the
  fixed permutation (bit \<open>p\<close> of the result is the bit that the permutation moved away from
  position \<open>p\<close>), then the rotation to the right by \<open>rotation a\<close>.
\<close>

definition unswap :: "u16 \<Rightarrow> u16" where
  "unswap w = ucast (BITSWAP16 (ucast w) 10 7 6 3 2 15 14 13 12 9 8 5 4 1 0 11)"

definition obfuscate_inverse :: "u16 \<Rightarrow> s32 \<Rightarrow> u16" where
  "obfuscate_inverse w a = word_rotr (unat (rotation a)) (unswap w)"

subsection \<open>The words and the bytes of a region\<close>

text \<open>
  The region as the sequence of its whole 16-bit words, and the byte at position \<open>j\<close> of
  the region whose word \<open>j div 2\<close> is replaced by its decryption at the address \<open>j div 2\<close>.
\<close>

definition region_words :: "endianness \<Rightarrow> u8 list \<Rightarrow> u16 list" where
  "region_words e region = map (rom_read e region) [0..<length region div 2]"

definition plain_byte :: "endianness \<Rightarrow> u16 list \<Rightarrow> u8 list \<Rightarrow> nat \<Rightarrow> u8" where
  "plain_byte e key region j =
     (let i = j div 2;
          w = decrypt key (rom_read e region i) (of_nat i)
      in if even j then fst (word_bytes e w) else snd (word_bytes e w))"

subsection \<open>Defined shifts\<close>

text \<open>
  A shift of an \<open>int\<close> by \<open>n\<close> is defined in C++ when \<open>n\<close> is not negative and less than
  32, the width of the promoted left operand.
\<close>

definition shift_defined :: "s32 \<Rightarrow> bool" where
  "shift_defined n \<longleftrightarrow> 0 \<le> sint n \<and> sint n < 32"

subsection \<open>A predicate on the functions of the tables\<close>

text \<open>The functions of the tables read the bits 3, 4 and 7 only.\<close>

definition low_only :: "(s32 \<Rightarrow> s32) \<Rightarrow> bool" where
  "low_only f \<longleftrightarrow> (\<forall>x y. bit x 3 = bit y 3 \<and> bit x 4 = bit y 4 \<and> bit x 7 = bit y 7 \<longrightarrow> f x = f y)"

section \<open>Properties\<close>

subsection \<open>Bits of 32-bit values\<close>

lemma BIT_eq: "n < 32 \<Longrightarrow> BIT x n = (if bit x n then 1 else 0)"
proof -
  assume n: "n < 32"
  have "BIT x n = of_bool (bit (signed_drop_bit n x) 0)"
    by (simp add: BIT_def and_one_eq bit_0 mod_2_eq_odd)
  also have "bit (signed_drop_bit n x) 0 = bit x n"
    using n by (simp add: bit_signed_drop_bit_iff)
  finally show ?thesis by simp
qed

lemma bit_beyond:
  fixes a :: s32
  shows "\<not> n < 32 \<Longrightarrow> \<not> bit a n"
  using bit_imp_le_length [of a n] by auto

lemma mask_bits:
  fixes a b :: s32
  assumes "a AND m = b AND m" and "bit m n"
  shows "bit a n = bit b n"
proof -
  have "bit (a AND m) n = bit (b AND m) n"
    using assms(1) by simp
  then show ?thesis
    using assms(2) by (simp add: bit_and_iff)
qed

lemma sint_small:
  fixes w :: s32
  assumes "unat w \<le> 16"
  shows "sint w = int (unat w)"
proof -
  have "int (unat w) \<le> int 16"
    using assms by (rule of_nat_mono)
  then have u: "uint w \<le> 16" by simp
  have z: "0 \<le> uint w" by simp
  have p: "(2::int) ^ 31 = 2147483648" by simp
  have "sint w = signed_take_bit 31 (uint w)"
    by (simp add: sint_uint)
  also have "\<dots> = uint w"
  proof (rule signed_take_bit_int_eq_self)
    show "- (2 ^ 31) \<le> uint w" using z p by linarith
    show "uint w < 2 ^ 31" using u p by linarith
  qed
  finally show ?thesis by simp
qed

subsection \<open>The range of the rotation\<close>

lemma rotation_le: "unat (rotation a) \<le> 15"
proof -
  have "unat ((rotation_rot a + rotation_rot2 a) AND 15) \<le> unat (15 :: s32)"
    by (rule word_and_le1 [THEN word_le_nat_alt [THEN iffD1]])
  then show ?thesis by (simp add: rotation_def)
qed

lemma rot_sum_negative: "sint (rotation_rot 8 + rotation_rot2 8) = - 4"
  by code_simp

text \<open>
  C3. For every address the value of \<open>rotation\<close>, read as the signed \<open>int\<close> it is, lies
  between 0 and 15; the sum of the group contribution and of the block contribution
  that is masked can be negative (it is -4 at address 8).
\<close>

theorem rotation_range:
  "0 \<le> sint (rotation a) \<and> sint (rotation a) \<le> 15
   \<and> (\<exists>b. sint (rotation_rot b + rotation_rot2 b) < 0)"
proof -
  have "sint (rotation a) = int (unat (rotation a))"
    by (rule sint_small) (use rotation_le [of a] in simp)
  moreover have "int (unat (rotation a)) \<le> int 15"
    using rotation_le by (rule of_nat_mono)
  moreover have "\<exists>b. sint (rotation_rot b + rotation_rot2 b) < 0"
  proof
    show "sint (rotation_rot 8 + rotation_rot2 8) < 0"
      unfolding rot_sum_negative by simp
  qed
  ultimately show ?thesis by simp
qed

subsection \<open>The block contribution\<close>

lemma rot2_eq_spec:
  "sint (rotation_rot2 a) =
     rot2_spec (address_bit a 0) (address_bit a 1) (address_bit a 3)
       (address_bit a 4) (address_bit a 7)"
  unfolding rotation_rot2_def rot2_spec_def address_bit_def Let_def
  by (cases "bit a 0"; cases "bit a 1"; cases "bit a 3"; cases "bit a 4"; cases "bit a 7")
     (simp_all add: BIT_eq)

lemma rot2_low_bits:
  assumes "a AND 0x9B = b AND 0x9B"
  shows "rotation_rot2 a = rotation_rot2 b"
proof -
  note m = mask_bits [OF assms]
  have "bit a 0 = bit b 0" "bit a 1 = bit b 1" "bit a 3 = bit b 3"
    "bit a 4 = bit b 4" "bit a 7 = bit b 7"
    by (rule m, simp)+
  then show ?thesis
    unfolding rotation_rot2_def by (simp add: BIT_eq)
qed

text \<open>
  C5. The block contribution \<open>rot2\<close> is the value \<open>t\<close> of the specification's formula at
  the address bits 0, 1, 3, 4 and 7, and two addresses with the same bits 0, 1, 3, 4 and 7
  (the mask \<open>0x9B\<close>) have the same block contribution.
\<close>

theorem rot2_formula:
  "sint (rotation_rot2 a) =
     rot2_spec (address_bit a 0) (address_bit a 1) (address_bit a 3)
       (address_bit a 4) (address_bit a 7)
   \<and> (a AND 0x9B = b AND 0x9B \<longrightarrow> rotation_rot2 a = rotation_rot2 b)"
  using rot2_eq_spec rot2_low_bits by blast

theorem rot2_formula_witness:
  "(0x7F :: s32) AND 0x9B = 0x1B AND 0x9B
   \<and> rotation_rot2 0x7F = rotation_rot2 0x1B
   \<and> sint (rotation_rot2 0x7F) = 9"
proof -
  have h: "(0x7F :: s32) AND 0x9B = 0x1B AND 0x9B" by simp
  note f = rot2_formula [of "0x7F" "0x1B"]
  from f h have "rotation_rot2 0x7F = rotation_rot2 0x1B" by blast
  moreover from f [THEN conjunct1] have "sint (rotation_rot2 0x7F) = 9"
    by (simp add: rot2_spec_def address_bit_def)
  ultimately show ?thesis using h by blast
qed

subsection \<open>Address bits 5 and 6\<close>

lemma bit_pow2: "k < 32 \<Longrightarrow> bit (2 ^ k :: s32) n \<longleftrightarrow> n = k"
  by (auto simp add: bit_exp_iff)

lemma bit_0x60: "bit (0x60 :: s32) n \<longleftrightarrow> n = 5 \<or> n = 6"
proof -
  have e: "(0x60 :: s32) = 32 OR 64" by simp
  have b5: "bit (32 :: s32) n \<longleftrightarrow> n = 5" using bit_pow2 [of 5 n] by simp
  have b6: "bit (64 :: s32) n \<longleftrightarrow> n = 6" using bit_pow2 [of 6 n] by simp
  show ?thesis unfolding e by (simp only: bit_or_iff b5 b6)
qed

lemma agree_bit:
  fixes a b :: s32
  assumes "a AND NOT 0x60 = b AND NOT 0x60" "n \<noteq> 5" "n \<noteq> 6"
  shows "bit a n = bit b n"
proof (cases "n < 32")
  case True
  have "bit (NOT 0x60 :: s32) n"
    unfolding bit_not_iff bit_0x60 using True assms(2,3) by simp
  with assms(1) show ?thesis by (rule mask_bits)
next
  case False
  then show ?thesis by (simp add: bit_beyond)
qed

lemma agree_BIT:
  assumes "a AND NOT 0x60 = b AND NOT 0x60" "n \<noteq> 5" "n \<noteq> 6" "n < 32"
  shows "BIT a n = BIT b n"
  using agree_bit [OF assms(1-3)] assms(4) by (simp add: BIT_eq)

lemma low_only_fns:
  "low_only unknown" "low_only cZero" "low_only cOne" "low_only bit_3" "low_only bit_4"
  "low_only bit_7" "low_only not_3" "low_only not_4" "low_only not_7" "low_only xor_37"
  "low_only xnor_37" "low_only xor_47" "low_only xnor_47" "low_only nor_34" "low_only impl_43"
  unfolding low_only_def unknown_def cZero_def cOne_def bit_3_def bit_4_def bit_7_def
    not_3_def not_4_def not_7_def xor_37_def xnor_37_def xor_47_def xnor_47_def
    nor_34_def impl_43_def
  by (simp_all add: BIT_eq)

lemma rot_enabling_low_only: "list_all (list_all low_only) rot_enabling"
  unfolding rot_enabling_def by (simp add: low_only_fns)

lemma rot_direction_low_only: "list_all (list_all low_only) rot_direction"
  unfolding rot_direction_def by (simp add: low_only_fns)

lemma rot_enabling_shape: "length rot_enabling = 16" "list_all (\<lambda>row. length row = 4) rot_enabling"
  unfolding rot_enabling_def by simp_all

lemma rot_direction_shape: "length rot_direction = 4" "list_all (\<lambda>row. length row = 8) rot_direction"
  unfolding rot_direction_def by simp_all

lemma rot_enabling_entry: "g < 16 \<Longrightarrow> k < 4 \<Longrightarrow> low_only (rot_enabling ! g ! k)"
  using rot_enabling_low_only rot_enabling_shape
  by (simp add: list_all_length)

lemma rot_direction_entry: "g < 4 \<Longrightarrow> k < 8 \<Longrightarrow> low_only (rot_direction ! g ! k)"
  using rot_direction_low_only rot_direction_shape
  by (simp add: list_all_length)

lemma unat_and_3: "unat ((x :: s32) AND 3) < 4"
proof -
  have "unat (x AND 3) \<le> unat (3 :: s32)"
    by (rule word_and_le1 [THEN word_le_nat_alt [THEN iffD1]])
  then show ?thesis by simp
qed

lemma unat_and_7: "unat ((x :: s32) AND 7) < 8"
proof -
  have "unat (x AND 7) \<le> unat (7 :: s32)"
    by (rule word_and_le1 [THEN word_le_nat_alt [THEN iffD1]])
  then show ?thesis by simp
qed

lemma agree_and_mask:
  fixes a b m :: s32
  assumes "a AND NOT 0x60 = b AND NOT 0x60" and "m AND 0x60 = 0"
  shows "a AND m = b AND m"
proof (rule bit_word_eqI)
  fix n assume "n < LENGTH(32)"
  have "\<not> bit m n" if "n = 5 \<or> n = 6"
  proof -
    have "bit (m AND 0x60) n = bit (0 :: s32) n" by (simp only: assms(2))
    then show ?thesis unfolding bit_and_iff bit_0x60 using that by simp
  qed
  then show "bit (a AND m) n = bit (b AND m) n"
    using agree_bit [OF assms(1), of n] by (auto simp add: bit_and_iff)
qed

lemma agree_xor:
  fixes a b k :: s32
  assumes "a AND NOT 0x60 = b AND NOT 0x60"
  shows "(a XOR k) AND NOT 0x60 = (b XOR k) AND NOT 0x60"
  using assms by (simp add: bit.conj_xor_distrib2)

lemma rot_enabled_agree:
  assumes "a AND NOT 0x60 = b AND NOT 0x60" and "list_all (\<lambda>g. g < 16) grp"
  shows "rot_enabled a grp = rot_enabled b grp"
  using assms(2)
proof (induction grp)
  case Nil
  show ?case by simp
next
  case (Cons g grp)
  then have g: "g < 16" and rest: "rot_enabled a grp = rot_enabled b grp" by simp_all
  have hi: "BIT a (8 + g) = BIT b (8 + g)"
    using g by (intro agree_BIT [OF assms(1)]) simp_all
  have b2: "BIT a 2 = BIT b 2"
    by (intro agree_BIT [OF assms(1)]) simp_all
  define x where "x = a XOR (0x1b * BIT a 2)"
  define y where "y = b XOR (0x1b * BIT a 2)"
  have xy: "x AND NOT 0x60 = y AND NOT 0x60"
    unfolding x_def y_def using assms(1) by (rule agree_xor)
  have idx: "x AND 3 = y AND 3"
    using xy by (rule agree_and_mask) simp
  have "low_only (rot_enabling ! g ! unat (y AND 3))"
    using g unat_and_3 by (rule rot_enabling_entry)
  moreover have "bit x 3 = bit y 3" "bit x 4 = bit y 4" "bit x 7 = bit y 7"
    by (rule agree_bit [OF xy]; simp)+
  ultimately have "(rot_enabling ! g ! unat (y AND 3)) x = (rot_enabling ! g ! unat (y AND 3)) y"
    unfolding low_only_def by blast
  then show ?case
    using hi b2 rest idx by (simp add: Let_def x_def y_def)
qed

lemma rot_group_agree:
  assumes "a AND NOT 0x60 = b AND NOT 0x60" and "grp ! 0 AND 3 < 4"
  shows "rot_group a grp = rot_group b grp"
proof -
  have idx: "a AND 7 = b AND 7"
    using assms(1) by (rule agree_and_mask) simp
  have "low_only (rot_direction ! (grp ! 0 AND 3) ! unat (b AND 7))"
    using assms(2) unat_and_7 by (rule rot_direction_entry)
  moreover have "bit a 3 = bit b 3" "bit a 4 = bit b 4" "bit a 7 = bit b 7"
    by (rule agree_bit [OF assms(1)]; simp)+
  ultimately have "(rot_direction ! (grp ! 0 AND 3) ! unat (b AND 7)) a
      = (rot_direction ! (grp ! 0 AND 3) ! unat (b AND 7)) b"
    unfolding low_only_def by blast
  then show ?thesis
    unfolding rot_group_def using idx by (simp add: Let_def)
qed

lemma rot2_agree:
  assumes "a AND NOT 0x60 = b AND NOT 0x60"
  shows "rotation_rot2 a = rotation_rot2 b"
proof (rule rot2_low_bits)
  show "a AND 0x9B = b AND 0x9B"
    using assms by (rule agree_and_mask) simp
qed

lemma groups_small:
  "list_all (\<lambda>g. g < 16) group15" "list_all (\<lambda>g. g < 16) group14"
  "list_all (\<lambda>g. g < 16) group13" "list_all (\<lambda>g. g < 16) group12"
  unfolding group15_def group14_def group13_def group12_def by simp_all

lemma groups_first:
  "group15 ! 0 AND 3 < 4" "group14 ! 0 AND 3 < 4"
  "group13 ! 0 AND 3 < 4" "group12 ! 0 AND 3 < 4"
  unfolding group15_def group14_def group13_def group12_def by simp_all

lemma rotation_rot_agree:
  assumes "a AND NOT 0x60 = b AND NOT 0x60"
  shows "rotation_rot a = rotation_rot b"
  unfolding rotation_rot_def
    rot_enabled_agree [OF assms groups_small(1)] rot_enabled_agree [OF assms groups_small(2)]
    rot_enabled_agree [OF assms groups_small(3)] rot_enabled_agree [OF assms groups_small(4)]
    rot_group_agree [OF assms groups_first(1)] rot_group_agree [OF assms groups_first(2)]
    rot_group_agree [OF assms groups_first(3)] rot_group_agree [OF assms groups_first(4)]
  by (rule refl)

text \<open>
  C10. Two addresses that agree on every bit except possibly bits 5 and 6 (they are equal
  under the mask \<open>NOT 0x60\<close>) have the same rotation, and \<open>deobfuscate\<close> returns the same
  word for every cipher word at both.
\<close>

theorem bits_5_6_unused:
  assumes "a AND NOT 0x60 = b AND NOT 0x60"
  shows "rotation a = rotation b \<and> deobfuscate c a = deobfuscate c b"
proof -
  have "rotation a = rotation b"
    unfolding rotation_def rotation_rot_agree [OF assms] rot2_agree [OF assms] by (rule refl)
  then show ?thesis by (simp add: deobfuscate_def)
qed

theorem bits_5_6_unused_witness:
  "(0x123456 :: s32) AND NOT 0x60 = 0x123416 AND NOT 0x60
   \<and> rotation 0x123456 = rotation 0x123416
   \<and> deobfuscate 0x8001 0x123456 = deobfuscate 0x8001 0x123416"
proof -
  have h: "(0x123456 :: s32) AND NOT 0x60 = 0x123416 AND NOT 0x60" by simp
  from bits_5_6_unused [OF h, of "0x8001"] h show ?thesis by blast
qed

subsection \<open>The key-dependent stage\<close>

lemma shift8_masked:
  fixes a :: s32 and m :: u16
  shows "signed_drop_bit 8 a AND ucast m = drop_bit 8 a AND ucast m"
  by (rule bit_word_eqI) (auto simp add: bit_simps dest: bit_imp_le_length)

lemma BIT_key: "BIT (ucast (k :: u16)) i \<noteq> 0 \<longleftrightarrow> bit k i"
proof (cases "i < 32")
  case True
  then show ?thesis by (auto simp add: BIT_eq bit_simps dest: bit_imp_le_length)
next
  case False
  have "\<not> bit k i" using False bit_imp_le_length [of k i] by auto
  moreover have "\<not> bit k 31" using bit_imp_le_length [of k 31] by auto
  then have "signed_drop_bit i (ucast k :: s32) = 0"
    using False by (simp add: signed_drop_bit_beyond bit_simps)
  ultimately show ?thesis by (simp add: BIT_def)
qed

lemma decrypt_step_eq:
  "decrypt_step key a i aux =
     (if bit (key ! unat (a AND 0xff)) i \<and> trigger_match a i then aux XOR push_bit i 1 else aux)"
  unfolding decrypt_step_def trigger_match_def BIT_key shift8_masked by simp

lemma bit_loop32:
  fixes aux :: s32
  shows "n \<le> 32 \<Longrightarrow> bit (fold (\<lambda>i v. if P i then v XOR push_bit i 1 else v) [0..<n] aux) j
      \<longleftrightarrow> (bit aux j \<noteq> (j < n \<and> P j))"
proof (induction n)
  case 0
  show ?case by simp
next
  case (Suc n)
  then show ?case
    by (auto simp add: bit_simps bit_1_iff less_Suc_eq dest: bit_imp_le_length)
qed

lemma bit_loop16:
  fixes aux :: u16
  shows "n \<le> 16 \<Longrightarrow> bit (fold (\<lambda>i v. if P i then v XOR push_bit i 1 else v) [0..<n] aux) j
      \<longleftrightarrow> (bit aux j \<noteq> (j < n \<and> P j))"
proof (induction n)
  case 0
  show ?case by simp
next
  case (Suc n)
  then show ?case
    by (auto simp add: bit_simps bit_1_iff less_Suc_eq dest: bit_imp_le_length)
qed

lemma decrypt_loop_eq:
  "fold (decrypt_step key a) [0..<16] (ucast v)
     = ucast (apply_key_xor key v a)"
proof (rule bit_word_eqI)
  fix j assume "j < LENGTH(32)"
  have f: "decrypt_step key a = (\<lambda>i v. if bit (key ! unat (a AND 0xff)) i \<and> trigger_match a i
                  then v XOR push_bit i 1 else v)"
    by (intro ext) (rule decrypt_step_eq)
  show "bit (fold (decrypt_step key a) [0..<16] (ucast v)) j
      = bit (ucast (apply_key_xor key v a) :: s32) j"
    unfolding f apply_key_xor_def
    by (auto simp add: bit_loop32 bit_loop16 bit_ucast_iff dest: bit_imp_le_length)
qed

lemma decrypt_eq: "decrypt key c a = apply_key_xor key (deobfuscate c a) a XOR 0x1A3A"
  unfolding decrypt_def Let_def decrypt_loop_eq
  by (rule bit_word_eqI) (simp add: bit_simps)

lemma apply_key_xor_bit:
  "bit (apply_key_xor key v a) i
     \<longleftrightarrow> (bit v i \<noteq> (bit (key ! unat (a AND 0xFF)) i \<and> trigger_match a i))"
  unfolding apply_key_xor_def
  by (auto simp add: bit_loop16 dest: bit_imp_le_length)

text \<open>
  C1. For every cipher word, address and key table, \<open>decrypt\<close> is the key-dependent
  stage applied to the deobfuscated word, XORed with \<open>0x1A3A\<close> whatever the key; and the
  key-dependent stage toggles bit \<open>i\<close> exactly when bit \<open>i\<close> of \<open>key[a & 0xFF]\<close> is set
  and \<open>((a >> 8) & triggers[i][0]) == triggers[i][1]\<close>.
\<close>

theorem decrypt_structure:
  "decrypt key c a = apply_key_xor key (deobfuscate c a) a XOR 0x1A3A
   \<and> (\<forall>i. bit (apply_key_xor key v a) i
          \<longleftrightarrow> (bit v i \<noteq> (bit (key ! unat (a AND 0xFF)) i \<and> trigger_match a i)))"
  using decrypt_eq apply_key_xor_bit by blast

lemma apply_key_xor_zero:
  assumes "key ! unat (a AND 0xFF) = 0"
  shows "apply_key_xor key v a = v"
  by (rule bit_word_eqI) (simp add: apply_key_xor_bit assms)

lemma rotation_0: "rotation 0 = 0"
  by code_simp

lemma deobfuscate_0: "deobfuscate 0 0 = 0" "deobfuscate 0xFFFF 0 = 0xFFFF"
  by code_simp+

text \<open>
  C6. Where \<open>key[a & 0xFF]\<close> is 0, \<open>decrypt\<close> is \<open>deobfuscate\<close> XORed with \<open>0x1A3A\<close>;
  the shift at address 0 is 0, and with \<open>key[0] = 0\<close> the words 0 and \<open>0xFFFF\<close> at
  address 0 decrypt to \<open>0x1A3A\<close> and \<open>0xE5C5\<close>.
\<close>

theorem zero_key_baseline:
  "(key ! unat (a AND 0xFF) = 0 \<longrightarrow> decrypt key w a = deobfuscate w a XOR 0x1A3A)
   \<and> rotation 0 = 0
   \<and> (key ! 0 = 0 \<longrightarrow> decrypt key 0 0 = 0x1A3A \<and> decrypt key 0xFFFF 0 = 0xE5C5)"
proof (intro conjI impI)
  assume "key ! unat (a AND 0xFF) = 0"
  then show "decrypt key w a = deobfuscate w a XOR 0x1A3A"
    by (simp add: decrypt_eq apply_key_xor_zero)
next
  show "rotation 0 = 0" by (rule rotation_0)
next
  assume "key ! 0 = 0"
  then have z: "apply_key_xor key v 0 = v" for v
    by (intro apply_key_xor_zero) simp
  show "decrypt key 0 0 = 0x1A3A"
    unfolding decrypt_eq z deobfuscate_0 by simp
  show "decrypt key 0xFFFF 0 = 0xE5C5"
    unfolding decrypt_eq z deobfuscate_0 by simp
qed

theorem zero_key_baseline_witness:
  "sample_key ! unat ((0x123456 :: s32) AND 0xFF) = 0
   \<and> decrypt sample_key 0x8001 0x123456 = deobfuscate 0x8001 0x123456 XOR 0x1A3A
   \<and> sample_key ! 0 = 0
   \<and> decrypt sample_key 0 0 = 0x1A3A \<and> decrypt sample_key 0xFFFF 0 = 0xE5C5"
proof -
  have h: "sample_key ! unat ((0x123456 :: s32) AND 0xFF) = 0"
    by (simp add: sample_key_def)
  have h0: "sample_key ! 0 = 0"
    by (simp add: sample_key_def)
  from zero_key_baseline [of sample_key "0x123456" "0x8001"] h h0
  show ?thesis by blast
qed

subsection \<open>The permutation and the rotation of a word\<close>

lemma bit_push_BIT:
  "k < 32 \<Longrightarrow> b < 32 \<Longrightarrow> bit (push_bit k (BIT x b)) n \<longleftrightarrow> n = k \<and> bit x b"
  by (auto simp add: BIT_eq bit_push_bit_iff bit_1_iff)

lemma bit_BIT_0: "b < 32 \<Longrightarrow> bit (BIT x b) n \<longleftrightarrow> n = 0 \<and> bit x b"
  using bit_push_BIT [of 0 b x n] by simp

lemma bit_BIT_1: "b < 32 \<Longrightarrow> bit (BIT x b * 2) n \<longleftrightarrow> n = 1 \<and> bit x b"
  using bit_push_BIT [of 1 b x n] by simp

lemma bit_BITSWAP16:
  assumes "list_all (\<lambda>b. b < 32) [B15, B14, B13, B12, B11, B10, B9, B8, B7, B6, B5, B4, B3, B2, B1, B0]"
  shows "bit (BITSWAP16 x B15 B14 B13 B12 B11 B10 B9 B8 B7 B6 B5 B4 B3 B2 B1 B0) n \<longleftrightarrow>
     (n = 15 \<and> bit x B15) \<or> (n = 14 \<and> bit x B14) \<or> (n = 13 \<and> bit x B13) \<or>
     (n = 12 \<and> bit x B12) \<or> (n = 11 \<and> bit x B11) \<or> (n = 10 \<and> bit x B10) \<or>
     (n = 9 \<and> bit x B9) \<or> (n = 8 \<and> bit x B8) \<or> (n = 7 \<and> bit x B7) \<or>
     (n = 6 \<and> bit x B6) \<or> (n = 5 \<and> bit x B5) \<or> (n = 4 \<and> bit x B4) \<or>
     (n = 3 \<and> bit x B3) \<or> (n = 2 \<and> bit x B2) \<or> (n = 1 \<and> bit x B1) \<or>
     (n = 0 \<and> bit x B0)"
  using assms unfolding BITSWAP16_def bit_or_iff
  by (simp add: bit_push_BIT bit_BIT_0 bit_BIT_1)

lemma unat_16_minus:
  fixes s :: s32
  assumes "unat s \<le> 15"
  shows "unat (16 - s) = 16 - unat s"
proof -
  have "s \<le> 16" using assms by (simp add: word_le_nat_alt)
  then have "unat (16 - s) = unat (16 :: s32) - unat s" by (rule unat_sub)
  then show ?thesis by simp
qed

lemma rol_rotl:
  assumes "unat s \<le> 15"
  shows "rol num s = word_rotl (unat s) num"
proof (rule bit_word_eqI)
  fix n assume "n < LENGTH(16)"
  then have n: "n < 16" by simp
  define t where "t = unat s"
  have t: "t \<le> 15" using assms by (simp add: t_def)
  have m: "(n + (16 - t mod 16)) mod 16 = (if t \<le> n then n - t else 16 + n - t)"
    using t n by (auto simp add: mod_if)
  show "bit (rol num s) n = bit (word_rotl (unat s) num) n"
    unfolding rol_def Let_def unat_16_minus [OF assms] bit_word_rotl_iff t_def [symmetric]
    using t n m
    by (auto simp add: bit_simps dest: bit_imp_le_length)
qed

lemma bit_unswap:
  "bit (unswap w) n \<longleftrightarrow>
     (n = 15 \<and> bit w 10) \<or> (n = 14 \<and> bit w 7) \<or> (n = 13 \<and> bit w 6) \<or>
     (n = 12 \<and> bit w 3) \<or> (n = 11 \<and> bit w 2) \<or> (n = 10 \<and> bit w 15) \<or>
     (n = 9 \<and> bit w 14) \<or> (n = 8 \<and> bit w 13) \<or> (n = 7 \<and> bit w 12) \<or>
     (n = 6 \<and> bit w 9) \<or> (n = 5 \<and> bit w 8) \<or> (n = 4 \<and> bit w 5) \<or>
     (n = 3 \<and> bit w 4) \<or> (n = 2 \<and> bit w 1) \<or> (n = 1 \<and> bit w 0) \<or>
     (n = 0 \<and> bit w 11)"
  unfolding unswap_def by (auto simp add: bit_ucast_iff bit_BITSWAP16)

lemma bit_deobfuscate:
  "bit (deobfuscate c a) n \<longleftrightarrow>
     (n = 15 \<and> bit (rol c (rotation a)) 10) \<or> (n = 14 \<and> bit (rol c (rotation a)) 9) \<or>
     (n = 13 \<and> bit (rol c (rotation a)) 8) \<or> (n = 12 \<and> bit (rol c (rotation a)) 7) \<or>
     (n = 11 \<and> bit (rol c (rotation a)) 0) \<or> (n = 10 \<and> bit (rol c (rotation a)) 15) \<or>
     (n = 9 \<and> bit (rol c (rotation a)) 6) \<or> (n = 8 \<and> bit (rol c (rotation a)) 5) \<or>
     (n = 7 \<and> bit (rol c (rotation a)) 14) \<or> (n = 6 \<and> bit (rol c (rotation a)) 13) \<or>
     (n = 5 \<and> bit (rol c (rotation a)) 4) \<or> (n = 4 \<and> bit (rol c (rotation a)) 3) \<or>
     (n = 3 \<and> bit (rol c (rotation a)) 12) \<or> (n = 2 \<and> bit (rol c (rotation a)) 11) \<or>
     (n = 1 \<and> bit (rol c (rotation a)) 2) \<or> (n = 0 \<and> bit (rol c (rotation a)) 1)"
  unfolding deobfuscate_def Let_def by (auto simp add: bit_ucast_iff bit_BITSWAP16)

lemma unswap_deobfuscate_bits:
  "list_all (\<lambda>n. bit (unswap (deobfuscate c a)) n = bit (rol c (rotation a)) n) [0..<16]"
proof -
  have e: "[0..<16] = [0, 1, 2, 3, 4, 5, 6, 7, 8, 9, 10, 11, 12, 13, 14, 15]"
    by code_simp
  show ?thesis
    unfolding e by (simp add: bit_unswap bit_deobfuscate)
qed

lemma unswap_deobfuscate: "unswap (deobfuscate c a) = rol c (rotation a)"
proof (rule bit_word_eqI)
  fix n assume "n < LENGTH(16)"
  then have "n \<in> set [0..<16]" by simp
  with unswap_deobfuscate_bits [of c a]
  show "bit (unswap (deobfuscate c a)) n = bit (rol c (rotation a)) n"
    unfolding list_all_iff by (rule bspec)
qed

lemma obfuscate_inverse_left: "obfuscate_inverse (deobfuscate w a) a = w"
  unfolding obfuscate_inverse_def unswap_deobfuscate rol_rotl [OF rotation_le]
  by (rule word_rot_lr)

text \<open>
  C2. For every address, \<open>deobfuscate\<close> at this address is a bijection on the 16-bit words,
  and the inverse permutation followed by the rotation to the right by \<open>rotation a\<close> gives
  back every word.
\<close>

theorem deobfuscate_bijective:
  "bij (\<lambda>c. deobfuscate c a) \<and> obfuscate_inverse (deobfuscate w a) a = w"
proof
  have "inj (\<lambda>c. deobfuscate c a)"
    by (rule inj_on_inverseI [where g = "\<lambda>w. obfuscate_inverse w a"])
       (rule obfuscate_inverse_left)
  then show "bij (\<lambda>c. deobfuscate c a)"
    by (simp add: bij_def finite_UNIV_inj_surj)
  show "obfuscate_inverse (deobfuscate w a) a = w"
    by (rule obfuscate_inverse_left)
qed

text \<open>
  C4. For every cipher word and address, the bits 15 down to 0 of the result of
  \<open>deobfuscate\<close> are the bits 10, 9, 8, 7, 0, 15, 6, 5, 14, 13, 4, 3, 12, 11, 2, 1 of the
  rotated word.
\<close>

theorem bit_permutation:
  "bit (deobfuscate c a) 15 = bit (rol c (rotation a)) 10 \<and>
   bit (deobfuscate c a) 14 = bit (rol c (rotation a)) 9 \<and>
   bit (deobfuscate c a) 13 = bit (rol c (rotation a)) 8 \<and>
   bit (deobfuscate c a) 12 = bit (rol c (rotation a)) 7 \<and>
   bit (deobfuscate c a) 11 = bit (rol c (rotation a)) 0 \<and>
   bit (deobfuscate c a) 10 = bit (rol c (rotation a)) 15 \<and>
   bit (deobfuscate c a) 9 = bit (rol c (rotation a)) 6 \<and>
   bit (deobfuscate c a) 8 = bit (rol c (rotation a)) 5 \<and>
   bit (deobfuscate c a) 7 = bit (rol c (rotation a)) 14 \<and>
   bit (deobfuscate c a) 6 = bit (rol c (rotation a)) 13 \<and>
   bit (deobfuscate c a) 5 = bit (rol c (rotation a)) 4 \<and>
   bit (deobfuscate c a) 4 = bit (rol c (rotation a)) 3 \<and>
   bit (deobfuscate c a) 3 = bit (rol c (rotation a)) 12 \<and>
   bit (deobfuscate c a) 2 = bit (rol c (rotation a)) 11 \<and>
   bit (deobfuscate c a) 1 = bit (rol c (rotation a)) 2 \<and>
   bit (deobfuscate c a) 0 = bit (rol c (rotation a)) 1"
  by (intro conjI; simp add: bit_deobfuscate)

subsection \<open>The region transform\<close>

lemma bytes_word_bytes: "bytes_word e (fst (word_bytes e w)) (snd (word_bytes e w)) = w"
proof (cases e)
  case ENDIANNESS_LITTLE
  then show ?thesis
    unfolding bytes_word_def word_bytes_def
    by simp (rule bit_word_eqI, auto simp add: bit_simps)
next
  case ENDIANNESS_BIG
  then show ?thesis
    unfolding bytes_word_def word_bytes_def
    by simp (rule bit_word_eqI, auto simp add: bit_simps)
qed

lemma sint_of_nat:
  assumes "n < 2 ^ 31"
  shows "sint (of_nat n :: s32) = int n"
proof -
  have "sint (of_nat n :: s32) = signed_take_bit 31 (int n)"
    by (simp add: signed_of_nat)
  also have "\<dots> = int n"
  proof (rule signed_take_bit_int_eq_self)
    show "- (2 ^ 31) \<le> int n" by (rule order_trans [of _ 0]) simp_all
    have "int n < int (2 ^ 31)" using assms by (rule of_nat_less_iff [THEN iffD2])
    then show "int n < 2 ^ 31" by simp
  qed
  finally show ?thesis .
qed

lemma word_count_eq:
  assumes "length region < 2 ^ 31"
  shows "word_count region = length region div 2"
proof -
  have "int (length region) sdiv 2 = int (length region div 2)"
    by (simp add: signed_divide_int_def sgn_if zdiv_int)
  then show ?thesis
    unfolding word_count_def Let_def sint_of_nat [OF assms] by simp
qed

lemma length_rom_write: "length (rom_write e rom i w) = length rom"
  unfolding rom_write_def by (simp split: prod.split)

lemma nth_rom_write:
  assumes "2 * i + 1 < length rom"
  shows "rom_write e rom i w ! j =
     (if j = 2 * i then fst (word_bytes e w)
      else if j = 2 * i + 1 then snd (word_bytes e w)
      else rom ! j)"
  unfolding rom_write_def using assms by (simp split: prod.split)

lemma loop_invariant:
  assumes "k \<le> length region div 2"
  shows "length (fold (decrypter_rom_step e key) [0..<k] region) = length region
    \<and> (\<forall>j<length region. fold (decrypter_rom_step e key) [0..<k] region ! j
          = (if j < 2 * k then plain_byte e key region j else region ! j))"
  using assms
proof (induction k)
  case 0
  show ?case by simp
next
  case (Suc k)
  define R where "R = fold (decrypter_rom_step e key) [0..<k] region"
  from Suc have len: "length R = length region"
    and old: "\<And>j. j < length region \<Longrightarrow> R ! j = (if j < 2 * k then plain_byte e key region j else region ! j)"
    by (simp_all add: R_def)
  from Suc.prems have in_range: "2 * k + 1 < length region" by simp
  have rd: "rom_read e R k = rom_read e region k"
    unfolding rom_read_def using old [of "2 * k"] old [of "2 * k + 1"] in_range by simp
  define w where "w = decrypt key (rom_read e region k) (of_nat k)"
  have st: "fold (decrypter_rom_step e key) [0..<Suc k] region = rom_write e R k w"
    using rd by (simp add: R_def [symmetric] decrypter_rom_step_def w_def)
  have "rom_write e R k w ! j = (if j < 2 * Suc k then plain_byte e key region j else region ! j)"
    if j: "j < length region" for j
  proof -
    have pb0: "plain_byte e key region (2 * k) = fst (word_bytes e w)"
      by (simp add: plain_byte_def w_def)
    have pb1: "plain_byte e key region (2 * k + 1) = snd (word_bytes e w)"
      by (simp add: plain_byte_def w_def)
    consider "j = 2 * k" | "j = 2 * k + 1" | "j < 2 * k" | "2 * k + 1 < j" by linarith
    then show ?thesis
    proof cases
      case 1 then show ?thesis using in_range len pb0 by (simp add: nth_rom_write)
    next
      case 2 then show ?thesis using in_range len pb1 by (simp add: nth_rom_write)
    next
      case 3 then show ?thesis using in_range len old [OF j] by (simp add: nth_rom_write)
    next
      case 4 then show ?thesis using in_range len old [OF j] by (simp add: nth_rom_write)
    qed
  qed
  then show ?case unfolding st by (simp add: length_rom_write len)
qed

lemma decrypter_rom_nth:
  assumes "length region < 2 ^ 31"
  shows "length (decrypter_rom e key region) = length region"
    and "j < length region \<Longrightarrow> decrypter_rom e key region ! j
          = (if j < 2 * (length region div 2) then plain_byte e key region j else region ! j)"
  using loop_invariant [of "length region div 2" region e key]
  unfolding decrypter_rom_def word_count_eq [OF assms] by simp_all

lemma rom_read_decrypter_rom:
  assumes "length region < 2 ^ 31" and "i < length region div 2"
  shows "rom_read e (decrypter_rom e key region) i = decrypt key (rom_read e region i) (of_nat i)"
proof -
  from assms(2) have r: "2 * i < length region" "2 * i + 1 < length region"
    "2 * i < 2 * (length region div 2)" "2 * i + 1 < 2 * (length region div 2)"
    by simp_all
  show ?thesis
    unfolding rom_read_def [of e "decrypter_rom e key region"]
      decrypter_rom_nth(2) [OF assms(1) r(1)] decrypter_rom_nth(2) [OF assms(1) r(2)]
    using r(3,4) by (simp add: plain_byte_def bytes_word_bytes)
qed

text \<open>
  C7. For a region of fewer than \<open>2^31\<close> bytes (its size is held in an \<open>int\<close>), the words
  of the transformed region are the decryptions of the words of the original region, each
  at its own index: word \<open>i\<close> of the result is \<open>decrypt\<close> of word \<open>i\<close> of the original at
  address \<open>i\<close>, whatever the other words are.
\<close>

theorem region_transform:
  assumes "length region < 2 ^ 31"
  shows "region_words e (decrypter_rom e key region)
     = map (\<lambda>i. decrypt key (region_words e region ! i) (of_nat i)) [0..<length region div 2]"
  unfolding region_words_def decrypter_rom_nth(1) [OF assms]
  by (rule nth_equalityI) (simp_all add: rom_read_decrypter_rom [OF assms])

theorem region_transform_witness:
  "length [1, 2, 3, 4, 5 :: u8] < 2 ^ 31
   \<and> region_words ENDIANNESS_LITTLE (decrypter_rom ENDIANNESS_LITTLE sample_key [1, 2, 3, 4, 5])
     = [decrypt sample_key 0x0201 0, decrypt sample_key 0x0403 1]"
proof -
  have h: "length [1, 2, 3, 4, 5 :: u8] < 2 ^ 31" by simp
  have w: "region_words ENDIANNESS_LITTLE [1, 2, 3, 4, 5] = [0x0201, 0x0403]"
    by code_simp
  have u: "[0..<length [1, 2, 3, 4, 5 :: u8] div 2] = [0, 1]"
    by code_simp
  from region_transform [OF h, of ENDIANNESS_LITTLE sample_key] h
  show ?thesis unfolding w u by simp
qed

lemma plain_byte_take:
  assumes "j < 2 * (length region div 2)"
  shows "plain_byte e key (take (2 * (length region div 2)) region) j = plain_byte e key region j"
proof -
  from assms have "j div 2 < length region div 2" by presburger
  then have "2 * (j div 2) < 2 * (length region div 2)"
    "2 * (j div 2) + 1 < 2 * (length region div 2)" by simp_all
  then show ?thesis
    unfolding plain_byte_def rom_read_def by simp
qed

text \<open>
  C9. For a region of fewer than \<open>2^31\<close> bytes, the loop runs over exactly
  \<open>bytes div 2\<close> words; the region keeps its length; the bytes from position
  \<open>2 * (bytes div 2)\<close> on (the trailing byte of a region of odd length) are not written;
  and the bytes before that position are those of the transform of the region without
  its trailing byte, which is therefore not read.
\<close>

theorem region_frame:
  assumes "length region < 2 ^ 31"
  shows "word_count region = length region div 2
    \<and> length (decrypter_rom e key region) = length region
    \<and> drop (2 * (length region div 2)) (decrypter_rom e key region)
        = drop (2 * (length region div 2)) region
    \<and> take (2 * (length region div 2)) (decrypter_rom e key region)
        = decrypter_rom e key (take (2 * (length region div 2)) region)"
proof (intro conjI)
  define n where "n = length region div 2"
  define pre where "pre = take (2 * n) region"
  have n: "2 * n \<le> length region" by (simp add: n_def)
  then have pre: "length pre = 2 * n" "length pre < 2 ^ 31" "length pre div 2 = n"
    using assms by (simp_all add: pre_def)
  show "word_count region = length region div 2"
    using assms by (rule word_count_eq)
  show len: "length (decrypter_rom e key region) = length region"
    using assms by (rule decrypter_rom_nth(1))
  show "drop (2 * n) (decrypter_rom e key region) = drop (2 * n) region"
    by (rule nth_equalityI) (simp_all add: len decrypter_rom_nth(2) [OF assms] n_def)
  show "take (2 * n) (decrypter_rom e key region) = decrypter_rom e key pre"
  proof (rule nth_equalityI)
    show "length (take (2 * n) (decrypter_rom e key region)) = length (decrypter_rom e key pre)"
      using n by (simp add: len decrypter_rom_nth(1) [OF pre(2)] pre(1))
    fix j assume "j < length (take (2 * n) (decrypter_rom e key region))"
    then have j: "j < 2 * n" by simp
    with n have jr: "j < length region" by simp
    have "decrypter_rom e key pre ! j = plain_byte e key pre j"
      using j by (simp add: decrypter_rom_nth(2) [OF pre(2)] pre(1,3))
    also have "\<dots> = plain_byte e key region j"
      unfolding pre_def n_def using j by (intro plain_byte_take) (simp add: n_def)
    finally show "take (2 * n) (decrypter_rom e key region) ! j = decrypter_rom e key pre ! j"
      using j jr by (simp add: decrypter_rom_nth(2) [OF assms] n_def)
  qed
qed

theorem region_frame_witness:
  "length [1, 2, 3, 4, 5 :: u8] < 2 ^ 31
   \<and> word_count [1, 2, 3, 4, 5] = 2
   \<and> length (decrypter_rom ENDIANNESS_BIG sample_key [1, 2, 3, 4, 5]) = 5
   \<and> drop 4 (decrypter_rom ENDIANNESS_BIG sample_key [1, 2, 3, 4, 5]) = [5]
   \<and> take 4 (decrypter_rom ENDIANNESS_BIG sample_key [1, 2, 3, 4, 5])
       = decrypter_rom ENDIANNESS_BIG sample_key [1, 2, 3, 4]"
proof -
  have h: "length [1, 2, 3, 4, 5 :: u8] < 2 ^ 31" by simp
  from region_frame [OF h, of ENDIANNESS_BIG sample_key] h
  show ?thesis by simp
qed

subsection \<open>Totality\<close>

lemma rol_0: "rol num 0 = num"
  unfolding rol_def Let_def
  by (rule bit_word_eqI) (auto simp add: bit_simps dest: bit_imp_le_length)

lemma shifts_defined: "shift_defined (rotation a) \<and> shift_defined (16 - rotation a)"
proof -
  define t where "t = unat (rotation a)"
  have t: "t \<le> 15" unfolding t_def by (rule rotation_le)
  have 1: "unat (rotation a) \<le> 16" using t by (simp add: t_def)
  have 2: "unat (16 - rotation a) \<le> 16" unfolding unat_16_minus [OF rotation_le] by simp
  have "sint (rotation a) = int t"
    unfolding t_def using 1 by (rule sint_small)
  moreover have "sint (16 - rotation a) = int (16 - t)"
    unfolding t_def unat_16_minus [OF rotation_le, symmetric] using 2 by (rule sint_small)
  ultimately show ?thesis
    unfolding shift_defined_def using t by simp
qed

lemma key_index: "unat ((a :: s32) AND 0xff) < 256"
proof -
  have "unat (a AND 0xff) \<le> unat (0xff :: s32)"
    by (rule word_and_le1 [THEN word_le_nat_alt [THEN iffD1]])
  then show ?thesis by simp
qed

text \<open>
  C8. \<open>decrypt\<close> is a function of the key, the cipher word and the address, built from a
  loop over the 16 bit positions and a loop over the four positions of a group, so it
  returns a value, the same at every call. \<open>rol\<close> at the shift 0 is the identity, and both
  shifts of \<open>rol\<close>, by \<open>rotation a\<close> and by \<open>16 - rotation a\<close>, are defined shifts of an \<open>int\<close>
  at every address; the index into the key is below 256.
\<close>

theorem decrypt_total:
  "(\<exists>y. decrypt key c a = y)
   \<and> rol num 0 = num
   \<and> shift_defined (rotation a) \<and> shift_defined (16 - rotation a)
   \<and> unat (a AND 0xff) < 256"
  using rol_0 shifts_defined key_index by simp

end
